theory Spec2Isabelle
  imports Main "HOL-Library.Char_ord" "HOL-Library.List_Lexorder" "HOL-Library.Product_Lexorder"
    "HOL-Library.Multiset" "HOL-Library.Sublist"
begin

section \<open>Texts\<close>

text \<open>
  A Python \<^verbatim>\<open>str\<close> is modelled as a \<^typ>\<open>string\<close>: a list of 8-bit characters, read as
  the code points U+0000 to U+00FF. Texts with code points above U+00FF are outside the
  model. The character classes below are those of Python 3 on that range.
\<close>

definition code :: "char \<Rightarrow> nat" where
  "code c = of_char c"

text \<open>\<^verbatim>\<open>str.isspace\<close>, also the class \<^verbatim>\<open>\s\<close> of \<^verbatim>\<open>re\<close> on a \<^verbatim>\<open>str\<close> pattern.\<close>

definition is_space :: "char \<Rightarrow> bool" where
  "is_space c = (let n = code c in
     (9 \<le> n \<and> n \<le> 13) \<or> (28 \<le> n \<and> n \<le> 32) \<or> n = 133 \<or> n = 160)"

text \<open>\<^verbatim>\<open>str.strip()\<close> with no argument: whitespace is removed at both ends.\<close>

definition lstrip :: "string \<Rightarrow> string" where
  "lstrip s = dropWhile is_space s"

definition rstrip :: "string \<Rightarrow> string" where
  "rstrip s = rev (dropWhile is_space (rev s))"

definition strip :: "string \<Rightarrow> string" where
  "strip s = rstrip (lstrip s)"

text \<open>\<^verbatim>\<open>s.startswith(p)\<close>.\<close>

fun startswith :: "string \<Rightarrow> string \<Rightarrow> bool" where
  "startswith s [] = True"
| "startswith [] (p # ps) = False"
| "startswith (c # cs) (p # ps) = (c = p \<and> startswith cs ps)"

text \<open>\<^verbatim>\<open>str(n)\<close> of a non-negative integer: its decimal digits.\<close>

definition digit_char :: "nat \<Rightarrow> char" where
  "digit_char d = char_of (48 + d)"

fun str_nat :: "nat \<Rightarrow> string" where
  "str_nat n = (if n < 10 then [digit_char n] else str_nat (n div 10) @ [digit_char (n mod 10)])"

declare str_nat.simps [simp del]

section \<open>Fetching: \<^verbatim>\<open>get_js_content\<close> and \<^verbatim>\<open>gather_all\<close>\<close>

text \<open>
  What one call of \<^verbatim>\<open>get_js_content\<close> meets outside the program. A library call that
  may raise an \<^verbatim>\<open>Exception\<close> returns \<open>Inl\<close> with the text of the exception
  (\<^verbatim>\<open>str(e)\<close>).
  \<^item> \<open>http_get\<close>: \<^verbatim>\<open>client.get(path)\<close> under the 10 second timeout, giving
    \<^verbatim>\<open>(r.status_code, r.text)\<close>;
  \<^item> \<open>path_exists\<close>: \<^verbatim>\<open>os.path.exists(path)\<close>;
  \<^item> \<open>read_text\<close>: \<^verbatim>\<open>open(path, "r", encoding="utf-8").read()\<close>.
\<close>

record io =
  http_get :: "string \<Rightarrow> string + (nat \<times> string)"
  path_exists :: "string \<Rightarrow> bool"
  read_text :: "string \<Rightarrow> string + string"

definition error_tag :: string where
  "error_tag = ''[ERROR]''"

definition get_js_content :: "io \<Rightarrow> string \<Rightarrow> string \<times> string" where
  "get_js_content w path =
     (if startswith path ''http'' then
        (case http_get w path of
           Inr (status_code, text) \<Rightarrow>
             (path, if status_code = 200 then text else error_tag @ '' HTTP '' @ str_nat status_code)
         | Inl e \<Rightarrow> (path, error_tag @ '' '' @ e))
      else if path_exists w path then
        (case read_text w path of
           Inr text \<Rightarrow> (path, text)
         | Inl e \<Rightarrow> (path, error_tag @ '' '' @ e))
      else (path, error_tag @ '' Invalid path''))"

text \<open>
  \<^verbatim>\<open>gather_all\<close> builds one coroutine per path, in the order of \<open>paths\<close>, and
  \<^verbatim>\<open>asyncio.gather\<close> returns their results in the order of its arguments. The tasks
  run interleaved: \<open>ws i\<close> is what the task of position \<open>i\<close> meets.
\<close>

definition gather_all :: "(nat \<Rightarrow> io) \<Rightarrow> string list \<Rightarrow> (string \<times> string) list" where
  "gather_all ws paths = map (\<lambda>(i, p). get_js_content (ws i) p) (enumerate 0 paths)"

section \<open>Extraction: \<^verbatim>\<open>extract_info\<close>\<close>

text \<open>
  The two regular expressions are matched by \<^verbatim>\<open>re.findall\<close>, which scans the text from
  left to right, reports the match that starts at the current position if there is one and
  continues behind it, and otherwise moves one character on. Both patterns are modelled by
  a function that matches the pattern at the start of a text and returns the reported
  value and the text left behind the match. In both patterns the character classes that
  follow each other are disjoint, so the backtracking of \<^verbatim>\<open>re\<close> finds no match that
  the greedy choice misses, and no match is empty.
\<close>

text \<open>The class \<^verbatim>\<open>\w\<close> on U+0000 to U+00FF: letters, digits, numeric characters and \<^verbatim>\<open>_\<close>.\<close>

definition is_word :: "char \<Rightarrow> bool" where
  "is_word c = (let n = code c in
     (48 \<le> n \<and> n \<le> 57) \<or> (65 \<le> n \<and> n \<le> 90) \<or> n = 95 \<or> (97 \<le> n \<and> n \<le> 122) \<or>
     n = 170 \<or> n = 178 \<or> n = 179 \<or> n = 181 \<or> n = 185 \<or> n = 186 \<or>
     (188 \<le> n \<and> n \<le> 190) \<or> (192 \<le> n \<and> n \<le> 214) \<or> (216 \<le> n \<and> n \<le> 246) \<or>
     (248 \<le> n \<and> n \<le> 255))"

text \<open>The class \<^verbatim>\<open>[\w-]\<close>; the hyphen is character 45.\<close>

definition is_token_char :: "char \<Rightarrow> bool" where
  "is_token_char c = (is_word c \<or> code c = 45)"

text \<open>The class \<^verbatim>\<open>[\s=:]\<close>; \<^verbatim>\<open>=\<close> is character 61 and \<^verbatim>\<open>:\<close> is character 58.\<close>

definition is_separator :: "char \<Rightarrow> bool" where
  "is_separator c = (is_space c \<or> code c = 61 \<or> code c = 58)"

text \<open>The class \<^verbatim>\<open>["\']\<close>: characters 34 and 39.\<close>

definition is_quote :: "char \<Rightarrow> bool" where
  "is_quote c = (code c = 34 \<or> code c = 39)"

text \<open>The class \<^verbatim>\<open>[^\s\'"]\<close>.\<close>

definition is_url_char :: "char \<Rightarrow> bool" where
  "is_url_char c = (\<not> is_space c \<and> \<not> is_quote c)"

text \<open>
  Lower case as \<^verbatim>\<open>re.IGNORECASE\<close> takes it on U+0000 to U+00FF: a character of the text
  matches a lower-case letter of the pattern when its lower case is that letter.
\<close>

definition tolower :: "char \<Rightarrow> char" where
  "tolower c = (let n = code c in
     if (65 \<le> n \<and> n \<le> 90) \<or> (192 \<le> n \<and> n \<le> 214) \<or> (216 \<le> n \<and> n \<le> 222)
     then char_of (n + 32) else c)"

text \<open>A literal of the pattern at the start of the text, with and without \<^verbatim>\<open>re.IGNORECASE\<close>.\<close>

fun match_literal :: "string \<Rightarrow> string \<Rightarrow> string option" where
  "match_literal [] s = Some s"
| "match_literal (p # ps) [] = None"
| "match_literal (p # ps) (c # cs) = (if c = p then match_literal ps cs else None)"

fun match_literal_ci :: "string \<Rightarrow> string \<Rightarrow> string option" where
  "match_literal_ci [] s = Some s"
| "match_literal_ci (p # ps) [] = None"
| "match_literal_ci (p # ps) (c # cs) = (if tolower c = p then match_literal_ci ps cs else None)"

text \<open>An optional character of a class, taken when it is there.\<close>

fun skip_optional :: "(char \<Rightarrow> bool) \<Rightarrow> string \<Rightarrow> string" where
  "skip_optional P [] = []"
| "skip_optional P (c # cs) = (if P c then cs else c # cs)"

text \<open>\<^verbatim>\<open>https?://[^\s\'"]+\<close> at the start of \<open>s\<close>: the matched text and the rest.\<close>

definition match_url :: "string \<Rightarrow> (string \<times> string) option" where
  "match_url s =
     (case match_literal ''http'' s of
        None \<Rightarrow> None
      | Some r1 \<Rightarrow>
          (let r2 = skip_optional (\<lambda>c. c = CHR ''s'') r1 in
           case match_literal ''://'' r2 of
             None \<Rightarrow> None
           | Some r3 \<Rightarrow>
               (let run = takeWhile is_url_char r3; rest = dropWhile is_url_char r3 in
                if run = [] then None
                else Some (take (length s - length rest) s, rest))))"

text \<open>\<^verbatim>\<open>(?:api[_-]?key|token|secret)\<close> under \<^verbatim>\<open>re.IGNORECASE\<close>: the rest behind the keyword.\<close>

definition match_keyword :: "string \<Rightarrow> string option" where
  "match_keyword s =
     (case (case match_literal_ci ''api'' s of
              None \<Rightarrow> None
            | Some r \<Rightarrow> match_literal_ci ''key'' (skip_optional (\<lambda>c. code c = 95 \<or> code c = 45) r)) of
        Some r \<Rightarrow> Some r
      | None \<Rightarrow>
          (case match_literal_ci ''token'' s of
             Some r \<Rightarrow> Some r
           | None \<Rightarrow> match_literal_ci ''secret'' s))"

text \<open>
  \<^verbatim>\<open>(?:api[_-]?key|token|secret)[\s=:]+["\']?([\w-]{8,})\<close> at the start of \<open>s\<close>: the
  captured group and the rest.
\<close>

definition match_token :: "string \<Rightarrow> (string \<times> string) option" where
  "match_token s =
     (case match_keyword s of
        None \<Rightarrow> None
      | Some r1 \<Rightarrow>
          (if takeWhile is_separator r1 = [] then None
           else
             (let r2 = skip_optional is_quote (dropWhile is_separator r1);
                  v = takeWhile is_token_char r2
              in if 8 \<le> length v then Some (v, dropWhile is_token_char r2) else None)))"

lemma match_literal_length: "match_literal p s = Some r \<Longrightarrow> length s = length p + length r"
  by (induction p s rule: match_literal.induct) (auto split: if_splits)

lemma match_literal_ci_length: "match_literal_ci p s = Some r \<Longrightarrow> length s = length p + length r"
  by (induction p s rule: match_literal_ci.induct) (auto split: if_splits)

lemma skip_optional_length: "length (skip_optional P s) \<le> length s"
  by (cases s) auto

lemma match_url_shorter: "match_url s = Some (v, rest) \<Longrightarrow> length rest < length s"
proof -
  assume m: "match_url s = Some (v, rest)"
  then obtain r1 r3 where r1: "match_literal ''http'' s = Some r1"
    and r3: "match_literal ''://'' (skip_optional (\<lambda>c. c = CHR ''s'') r1) = Some r3"
    and rest: "rest = dropWhile is_url_char r3"
    by (auto simp: match_url_def Let_def split: option.splits if_splits)
  have "length rest \<le> length r3"
    by (simp add: rest length_dropWhile_le)
  moreover have "length r3 \<le> length r1"
    using match_literal_length [OF r3] skip_optional_length [of "\<lambda>c. c = CHR ''s''" r1] by simp
  moreover have "length r1 < length s"
    using match_literal_length [OF r1] by simp
  ultimately show ?thesis by simp
qed

lemma match_keyword_shorter: "match_keyword s = Some r \<Longrightarrow> length r < length s"
proof -
  assume m: "match_keyword s = Some r"
  then consider
    (api) r0 where "match_literal_ci ''api'' s = Some r0"
      "match_literal_ci ''key'' (skip_optional (\<lambda>c. code c = 95 \<or> code c = 45) r0) = Some r"
  | (token) "match_literal_ci ''token'' s = Some r"
  | (secret) "match_literal_ci ''secret'' s = Some r"
    by (auto simp: match_keyword_def split: option.splits)
  then show ?thesis
  proof cases
    case api
    then show ?thesis
      using match_literal_ci_length [OF api(1)] match_literal_ci_length [OF api(2)]
        skip_optional_length [of "\<lambda>c. code c = 95 \<or> code c = 45" r0]
      by simp
  next
    case token
    then show ?thesis using match_literal_ci_length [OF token] by simp
  next
    case secret
    then show ?thesis using match_literal_ci_length [OF secret] by simp
  qed
qed

lemma match_token_shorter: "match_token s = Some (v, rest) \<Longrightarrow> length rest < length s"
proof -
  assume m: "match_token s = Some (v, rest)"
  then obtain r1 where r1: "match_keyword s = Some r1"
    and rest: "rest = dropWhile is_token_char (skip_optional is_quote (dropWhile is_separator r1))"
    by (auto simp: match_token_def Let_def split: option.splits if_splits)
  have "length rest \<le> length (skip_optional is_quote (dropWhile is_separator r1))"
    by (simp add: rest length_dropWhile_le)
  also have "\<dots> \<le> length (dropWhile is_separator r1)"
    by (rule skip_optional_length)
  also have "\<dots> \<le> length r1"
    by (rule length_dropWhile_le)
  also have "\<dots> < length s"
    by (rule match_keyword_shorter [OF r1])
  finally show ?thesis .
qed

text \<open>\<^verbatim>\<open>re.findall\<close> with each of the two patterns.\<close>

function findall_urls :: "string \<Rightarrow> string list" where
  "findall_urls s =
     (case match_url s of
        Some (v, rest) \<Rightarrow> v # findall_urls rest
      | None \<Rightarrow> (case s of [] \<Rightarrow> [] | c # cs \<Rightarrow> findall_urls cs))"
  by pat_completeness auto
termination
  by (relation "measure length") (auto dest: match_url_shorter)

declare findall_urls.simps [simp del]

function findall_tokens :: "string \<Rightarrow> string list" where
  "findall_tokens s =
     (case match_token s of
        Some (v, rest) \<Rightarrow> v # findall_tokens rest
      | None \<Rightarrow> (case s of [] \<Rightarrow> [] | c # cs \<Rightarrow> findall_tokens cs))"
  by pat_completeness auto
termination
  by (relation "measure length") (auto dest: match_token_shorter)

declare findall_tokens.simps [simp del]

text \<open>
  \<^verbatim>\<open>list(set(xs))\<close> lists the distinct elements of \<open>xs\<close> in the iteration order of a
  Python set, which depends on the hash seed of the process. The model takes that
  enumeration as a parameter \<open>lst\<close>; \<open>set_lister lst\<close> says that \<open>lst\<close> is such an
  enumeration.
\<close>

definition set_lister :: "(string list \<Rightarrow> string list) \<Rightarrow> bool" where
  "set_lister lst = (\<forall>xs. distinct (lst xs) \<and> set (lst xs) = set xs)"

record findings =
  urls :: "string list"
  tokens :: "string list"

definition extract_info :: "(string list \<Rightarrow> string list) \<Rightarrow> string \<Rightarrow> findings" where
  "extract_info lst code_text =
     \<lparr>urls = lst (findall_urls code_text), tokens = lst (findall_tokens code_text)\<rparr>"


section \<open>Analysis: \<^verbatim>\<open>explain_with_gemini\<close> and \<^verbatim>\<open>batch_explain_with_gemini\<close>\<close>

text \<open>
  Each call of \<^verbatim>\<open>print\<close> is a message: the constructor stands for the format string and
  carries the values that are formatted into it.
\<close>

datatype message =
    Input_not_found
  | No_paths
  | Skipped string string
  | No_valid_files
  | Sending nat int
  | May_take_time
  | Finished nat
  | Saved string
  | Done

definition prompt :: "string \<Rightarrow> string" where
  "prompt code_text =
     ''\<newline>    Analyze this JavaScript code and explain in detail:'' @
     ''\<newline>    - Any secrets, hardcoded API keys, suspicious logic?'' @
     ''\<newline>    - Any security risks like eval, setTimeout with string, or tokens?'' @
     ''\<newline>\<newline>    JS Code:\<newline>    '' @ code_text @ ''\<newline>    ''"

text \<open>
  The oracle is \<^verbatim>\<open>model.generate_content(prompt)\<close> followed by \<^verbatim>\<open>response.text\<close>:
  \<open>Inr\<close> with the text, or \<open>Inl\<close> with the text of the exception either of them raised.
\<close>

definition explain_with_gemini :: "(string \<Rightarrow> string + string) \<Rightarrow> string \<Rightarrow> string" where
  "explain_with_gemini oracle code_text =
     (case oracle (prompt code_text) of
        Inr text \<Rightarrow> strip text
      | Inl e \<Rightarrow> error_tag @ '' Gemini failed: '' @ e)"

text \<open>
  \<^verbatim>\<open>batch_explain_with_gemini\<close>. The task submitted for position \<open>idx\<close> calls the oracle
  \<open>oracle idx\<close>. \<open>order\<close> is the order in which \<^verbatim>\<open>as_completed\<close> yields the futures,
  given by their positions; in an execution it holds every position of the list once.
  \<^verbatim>\<open>ThreadPoolExecutor\<close> raises \<^verbatim>\<open>ValueError\<close> when \<open>max_workers\<close> is not positive.
  \<^verbatim>\<open>future.result()\<close> returns what \<^verbatim>\<open>explain_with_gemini\<close> returned; that function
  catches every \<^verbatim>\<open>Exception\<close> itself, so the handler around \<^verbatim>\<open>future.result()\<close> is
  never entered. \<^verbatim>\<open>results.sort()\<close> sorts the pairs of position and result as Python
  compares tuples: by position, then by the result text.
\<close>

definition future_result ::
  "(nat \<Rightarrow> string \<Rightarrow> string + string) \<Rightarrow> string list \<Rightarrow> nat \<Rightarrow> string + string" where
  "future_result oracle beautified_list idx =
     Inr (explain_with_gemini (oracle idx) (beautified_list ! idx))"

definition batch_explain_with_gemini ::
  "(nat \<Rightarrow> string \<Rightarrow> string + string) \<Rightarrow> nat list \<Rightarrow> string list \<Rightarrow> int \<Rightarrow> bool \<Rightarrow>
   string + (message list \<times> string list)" where
  "batch_explain_with_gemini oracle order beautified_list max_workers verbose =
     (if max_workers \<le> 0 then Inl ''max_workers must be greater than 0''
      else
        (let results = map (\<lambda>idx. (idx,
                (case future_result oracle beautified_list idx of
                   Inr result \<Rightarrow> result
                 | Inl e \<Rightarrow> error_tag @ '' Gemini failed: '' @ e))) order;
             printed = (if verbose then map (\<lambda>idx. Finished (idx + 1)) order else [])
         in Inr (printed, map snd (sort results))))"

section \<open>Recording: the output name and \<^verbatim>\<open>save_output\<close>\<close>

text \<open>\<^verbatim>\<open>os.path.basename\<close> of \<^verbatim>\<open>posixpath\<close>: the text behind the last \<^verbatim>\<open>/\<close>.\<close>

definition basename :: "string \<Rightarrow> string" where
  "basename p = rev (takeWhile (\<lambda>c. c \<noteq> CHR ''/'') (rev p))"

text \<open>\<^verbatim>\<open>s.split("?")[0]\<close>: the text before the first \<^verbatim>\<open>?\<close>.\<close>

definition before_query :: "string \<Rightarrow> string" where
  "before_query s = takeWhile (\<lambda>c. c \<noteq> CHR ''?'') s"

text \<open>
  \<^verbatim>\<open>s.replace(old, new)\<close>: every occurrence of \<open>old\<close> found from left to right, each
  search starting behind the last occurrence, is replaced.
\<close>

function replace :: "string \<Rightarrow> string \<Rightarrow> string \<Rightarrow> string" where
  "replace old new s =
     (if old = [] then new @ concat (map (\<lambda>c. c # new) s)
      else if startswith s old then new @ replace old new (drop (length old) s)
      else (case s of [] \<Rightarrow> [] | c # cs \<Rightarrow> c # replace old new cs))"
  by pat_completeness auto
termination
proof (relation "measure (\<lambda>(old, new, s). length s)")
  fix old new s :: string
  assume "old \<noteq> []" "startswith s old"
  then have "s \<noteq> []" by (cases old; cases s) auto
  with \<open>old \<noteq> []\<close>
  show "((old, new, drop (length old) s), (old, new, s)) \<in> measure (\<lambda>(old, new, s). length s)"
    by simp
qed auto

declare replace.simps [simp del]

text \<open>
  The class \<^verbatim>\<open>[\\/*?:"<>|]\<close> of the substitution, by character numbers: \<^verbatim>\<open>\\<close> is 92,
  \<^verbatim>\<open>/\<close> 47, \<^verbatim>\<open>*\<close> 42, \<^verbatim>\<open>?\<close> 63, \<^verbatim>\<open>:\<close> 58, \<^verbatim>\<open>"\<close> 34, \<^verbatim>\<open><\<close> 60, \<^verbatim>\<open>>\<close> 62 and
  \<^verbatim>\<open>|\<close> 124.
\<close>

definition unsafe_codes :: "nat list" where
  "unsafe_codes = [92, 47, 42, 63, 58, 34, 60, 62, 124]"

definition is_unsafe :: "char \<Rightarrow> bool" where
  "is_unsafe c = (code c \<in> set unsafe_codes)"

text \<open>\<^verbatim>\<open>re.sub(r'[\\/*?:"<>|]', "_", s)\<close>.\<close>

definition sub_unsafe :: "string \<Rightarrow> string" where
  "sub_unsafe s = map (\<lambda>c. if is_unsafe c then CHR ''_'' else c) s"

text \<open>The two lines of \<^verbatim>\<open>main\<close> that derive the name of the output from the path.\<close>

definition output_name :: "string \<Rightarrow> string" where
  "output_name path =
     (let base = before_query (basename path)
      in sub_unsafe (replace ''.js'' [] base))"

text \<open>\<^verbatim>\<open>sep.join(xs)\<close>.\<close>

fun join :: "string \<Rightarrow> string list \<Rightarrow> string" where
  "join sep [] = []"
| "join sep [x] = x"
| "join sep (x # y # ys) = x @ sep @ join sep (y # ys)"

text \<open>\<^verbatim>\<open>os.path.join(a, b)\<close> of \<^verbatim>\<open>posixpath\<close>.\<close>

definition path_join :: "string \<Rightarrow> string \<Rightarrow> string" where
  "path_join a b =
     (if startswith b ''/'' then b
      else if a = [] \<or> last a = CHR ''/'' then a @ b
      else a @ ''/'' @ b)"

definition md_path :: "string \<Rightarrow> string" where
  "md_path name = path_join ''output'' (name @ ''.md'')"

definition md_text :: "string \<Rightarrow> findings \<Rightarrow> string" where
  "md_text explanation extracted =
     (''## AI Explanation\<newline>'' @ explanation @ ''\<newline>'') @
     (''\<newline>## Extracted URLs:\<newline>'' @ join ''\<newline>'' (urls extracted) @ ''\<newline>'') @
     (''\<newline>## Extracted Tokens:\<newline>'' @ join ''\<newline>'' (tokens extracted) @ ''\<newline>'')"

text \<open>
  \<^verbatim>\<open>save_output\<close> writes one file. \<open>fault p\<close> is the text of the exception that
  \<^verbatim>\<open>os.makedirs\<close>, \<^verbatim>\<open>open\<close> or \<^verbatim>\<open>write\<close> raises for the file \<open>p\<close>, if any; nothing in
  the program catches it. The result is the file written: its path and its text.
\<close>

definition save_output ::
  "(string \<Rightarrow> string option) \<Rightarrow> string \<Rightarrow> string \<Rightarrow> findings \<Rightarrow> string + (string \<times> string)" where
  "save_output fault name explanation extracted =
     (case fault (md_path name) of
        Some e \<Rightarrow> Inl e
      | None \<Rightarrow> Inr (md_path name, md_text explanation extracted))"

section \<open>The driver: \<^verbatim>\<open>main\<close>\<close>

record args =
  verbose :: bool
  thread :: int
  quiet :: bool

text \<open>
  What a run of \<^verbatim>\<open>main\<close> meets outside the program:
  \<^item> \<open>input_lines\<close>: \<open>None\<close> when the input file does not exist, otherwise the lines that
    iterating over the file yields;
  \<^item> \<open>fetch_io i\<close>: what the fetch of position \<open>i\<close> meets;
  \<^item> \<open>beautify\<close>: \<^verbatim>\<open>jsbeautifier.beautify\<close>;
  \<^item> \<open>oracle_at i\<close>: the oracle as the analysis task of position \<open>i\<close> meets it;
  \<^item> \<open>latency i\<close>: the time at which the analysis task of position \<open>i\<close> completes;
  \<^item> \<open>list_of_set\<close>: the enumeration \<^verbatim>\<open>list(set(xs))\<close>;
  \<^item> \<open>storage_fault\<close>: the faults of the output directory.
\<close>

record world =
  input_lines :: "string list option"
  fetch_io :: "nat \<Rightarrow> io"
  beautify :: "string \<Rightarrow> string"
  oracle_at :: "nat \<Rightarrow> string \<Rightarrow> string + string"
  latency :: "nat \<Rightarrow> nat"
  list_of_set :: "string list \<Rightarrow> string list"
  storage_fault :: "string \<Rightarrow> string option"

text \<open>
  What a run does: the messages printed, the texts passed to the normalizer, the texts
  submitted to the analysis, the files written, all in order, and the exception that ended
  the run, if one did.
\<close>

record run =
  printed :: "message list"
  normalized :: "string list"
  submitted :: "string list"
  written :: "(string \<times> string) list"
  raised :: "string option"

text \<open>
  \<^verbatim>\<open>as_completed\<close> yields the futures in the order in which they complete: the positions
  of the \<open>n\<close> tasks by the time of completion, tasks that complete at the same time in the
  order of submission. Every order of the positions is the order of completion for some
  times.
\<close>

definition as_completed :: "(nat \<Rightarrow> nat) \<Rightarrow> nat \<Rightarrow> nat list" where
  "as_completed finish_time n = sort_key finish_time [0..<n]"

definition is_error :: "string \<Rightarrow> bool" where
  "is_error content = startswith content error_tag"

text \<open>
  The loop over \<^verbatim>\<open>enumerate(valid_js)\<close> that ends \<^verbatim>\<open>main\<close>: the messages printed, the
  files written and the exception raised. \<^verbatim>\<open>explanations[i]\<close> raises \<^verbatim>\<open>IndexError\<close>
  out of range.
\<close>

fun save_loop ::
  "world \<Rightarrow> bool \<Rightarrow> string list \<Rightarrow> (nat \<times> string \<times> string) list \<Rightarrow>
   message list \<times> (string \<times> string) list \<times> string option" where
  "save_loop w say explanations [] = ([], [], None)"
| "save_loop w say explanations ((i, path, code_text) # rest) =
     (let name = output_name path;
          extracted = extract_info (list_of_set w) code_text
      in if i < length explanations then
           (case save_output (storage_fault w) name (explanations ! i) extracted of
              Inl e \<Rightarrow> ([], [], Some e)
            | Inr file \<Rightarrow>
                (case save_loop w say explanations rest of
                   (ms, files, r) \<Rightarrow> ((if say then [Saved name] else []) @ ms, file # files, r)))
         else ([], [], Some ''list index out of range''))"

text \<open>
  The stages of \<^verbatim>\<open>main\<close> before the analysis: the paths read from the lines of the input
  file, and the two lists into which the fetched pairs are split.
\<close>

definition read_paths :: "string list \<Rightarrow> string list" where
  "read_paths lines = filter (\<lambda>l. l \<noteq> []) (map strip lines)"

definition valid_js :: "(string \<times> string) list \<Rightarrow> (string \<times> string) list" where
  "valid_js raw_results = filter (\<lambda>(path, content). \<not> is_error content) raw_results"

definition errored :: "(string \<times> string) list \<Rightarrow> (string \<times> string) list" where
  "errored raw_results = filter (\<lambda>(path, content). is_error content) raw_results"

definition main :: "args \<Rightarrow> world \<Rightarrow> run" where
  "main a w =
     (let max_workers = max 1 (min (thread a) 10) in
      case input_lines w of
        None \<Rightarrow>
          \<lparr>printed = [Input_not_found], normalized = [], submitted = [], written = [],
           raised = None\<rparr>
      | Some lines \<Rightarrow>
          (let paths = read_paths lines in
           if paths = [] then
             \<lparr>printed = [No_paths], normalized = [], submitted = [], written = [], raised = None\<rparr>
           else
             (let raw_results = gather_all (fetch_io w) paths;
                  out1 = (if \<not> quiet a
                          then map (\<lambda>(path, error). Skipped path error) (errored raw_results)
                          else [])
              in if valid_js raw_results = [] then
                   \<lparr>printed = out1 @ [No_valid_files], normalized = [], submitted = [],
                    written = [], raised = None\<rparr>
                 else
                   (let beautified_codes =
                          map (\<lambda>(_, code_text). beautify w code_text) (valid_js raw_results);
                        out2 = (if \<not> quiet a
                                then [Sending (length beautified_codes) max_workers, May_take_time]
                                else [])
                    in case batch_explain_with_gemini (oracle_at w)
                              (as_completed (latency w) (length beautified_codes)) beautified_codes
                              max_workers (verbose a) of
                         Inl e \<Rightarrow>
                           \<lparr>printed = out1 @ out2, normalized = map snd (valid_js raw_results),
                            submitted = [], written = [], raised = Some e\<rparr>
                       | Inr (out3, explanations) \<Rightarrow>
                           (case save_loop w (verbose a \<and> \<not> quiet a) explanations
                                   (enumerate 0 (valid_js raw_results)) of
                              (out4, files, r) \<Rightarrow>
                                \<lparr>printed = out1 @ out2 @ out3 @ out4 @
                                   (if r = None \<and> \<not> quiet a then [Done] else []),
                                 normalized = map snd (valid_js raw_results),
                                 submitted = beautified_codes,
                                 written = files, raised = r\<rparr>)))))"

section \<open>Notions for the statements about a run\<close>

text \<open>
  The pairs fetched in a run: the result of \<^verbatim>\<open>gather_all\<close> on the paths read, and no pair
  when the run ends before the fetch.
\<close>

definition fetched :: "world \<Rightarrow> (string \<times> string) list" where
  "fetched w =
     (case input_lines w of
        None \<Rightarrow> []
      | Some lines \<Rightarrow> gather_all (fetch_io w) (read_paths lines))"

text \<open>
  The text a fetch retrieves when nothing fails: the body of a response with status 200,
  or the contents of an existing file. \<open>None\<close> is a fetch fault: a path that is neither,
  another status, or an exception of the request or of the read.
\<close>

definition retrieved :: "io \<Rightarrow> string \<Rightarrow> string option" where
  "retrieved w path =
     (if startswith path ''http'' then
        (case http_get w path of
           Inr (status_code, text) \<Rightarrow> if status_code = 200 then Some text else None
         | Inl e \<Rightarrow> None)
      else if path_exists w path then
        (case read_text w path of Inr text \<Rightarrow> Some text | Inl e \<Rightarrow> None)
      else None)"

text \<open>
  The output record of the valid item of position \<open>i\<close>: the file named after its path,
  holding the analysis of its normalized text and the findings of its raw text.
\<close>

definition record_of :: "world \<Rightarrow> nat \<Rightarrow> string \<times> string \<Rightarrow> string \<times> string" where
  "record_of w i item =
     (md_path (output_name (fst item)),
      md_text (explain_with_gemini (oracle_at w i) (beautify w (snd item)))
        (extract_info (list_of_set w) (snd item)))"

text \<open>
  The valid items that a run records, with their positions: those before the first item
  whose output file cannot be written. \<open>first_fault\<close> is the exception of that write.
\<close>

definition write_succeeds :: "world \<Rightarrow> nat \<times> string \<times> string \<Rightarrow> bool" where
  "write_succeeds w = (\<lambda>(i, path, code_text). storage_fault w (md_path (output_name path)) = None)"

definition recorded :: "world \<Rightarrow> (nat \<times> string \<times> string) list" where
  "recorded w = takeWhile (write_succeeds w) (enumerate 0 (valid_js (fetched w)))"

definition first_fault :: "world \<Rightarrow> string option" where
  "first_fault w =
     (case dropWhile (write_succeeds w) (enumerate 0 (valid_js (fetched w))) of
        [] \<Rightarrow> None
      | (i, path, code_text) # rest \<Rightarrow> storage_fault w (md_path (output_name path)))"

text \<open>
  The messages printed for the errored items.
\<close>

definition skipped_messages :: "args \<Rightarrow> world \<Rightarrow> message list" where
  "skipped_messages a w =
     (if \<not> quiet a then map (\<lambda>(path, error). Skipped path error) (errored (fetched w)) else [])"

text \<open>
  The normalized texts of the valid items.
\<close>

definition beautified_codes :: "world \<Rightarrow> string list" where
  "beautified_codes w = map (\<lambda>(path, code_text). beautify w code_text) (valid_js (fetched w))"

text \<open>
  The two messages printed before the analysis.
\<close>

definition sending_messages :: "args \<Rightarrow> world \<Rightarrow> message list" where
  "sending_messages a w =
     (if \<not> quiet a
      then [Sending (length (beautified_codes w)) (max 1 (min (thread a) 10)), May_take_time]
      else [])"


text \<open>
  The progress messages of the analysis and of the recording.
\<close>

definition finished_messages :: "args \<Rightarrow> world \<Rightarrow> message list" where
  "finished_messages a w =
     (if verbose a
      then map (\<lambda>idx. Finished (idx + 1)) (as_completed (latency w) (length (beautified_codes w)))
      else [])"

definition saved_messages :: "args \<Rightarrow> world \<Rightarrow> message list" where
  "saved_messages a w =
     (if verbose a \<and> \<not> quiet a
      then map (\<lambda>(i, path, code_text). Saved (output_name path)) (recorded w)
      else [])"

text \<open>
  An example run, after the scenario of the specification. The input file names the local
  file \<^verbatim>\<open>a.js\<close>, which holds a token; the remote \<^verbatim>\<open>http://x/y.js\<close>, which answers with
  status 404; the local file \<^verbatim>\<open>log.js\<close>, whose text begins with \<^verbatim>\<open>[ERROR]\<close>; and the remote
  \<^verbatim>\<open>http://x/b.js?v=2\<close>, which answers with status 200. The oracle fails for the first
  valid item and answers for the second, which completes first.
\<close>

definition example_io :: io where
  "example_io =
     \<lparr>http_get = (\<lambda>p. if p = ''http://x/y.js'' then Inr (404, ''Not Found'')
                       else Inr (200, ''fetch(\"https://api.example/v1\")'')),
      path_exists = (\<lambda>p. p = ''a.js'' \<or> p = ''log.js''),
      read_text = (\<lambda>p. if p = ''a.js'' then Inr ''const k = \"token: abc12345\"''
                        else Inr ''[ERROR] handler missing'')\<rparr>"

definition example_lines :: "string list" where
  "example_lines = [''a.js\<newline>'', ''http://x/y.js\<newline>'', ''log.js\<newline>'', ''http://x/b.js?v=2'']"

definition example_world :: world where
  "example_world =
     \<lparr>input_lines = Some example_lines,
      fetch_io = (\<lambda>i. example_io),
      beautify = (\<lambda>s. s),
      oracle_at = (\<lambda>i p. if i = 0 then Inl ''quota exceeded'' else Inr '' No secrets found. ''),
      latency = (\<lambda>i. 5 - i),
      list_of_set = remdups,
      storage_fault = (\<lambda>p. None)\<rparr>"

definition example_args :: args where
  "example_args = \<lparr>verbose = False, thread = 3, quiet = False\<rparr>"

definition quiet_args :: args where
  "quiet_args = \<lparr>verbose = False, thread = 3, quiet = True\<rparr>"


section \<open>The words of the specification on output ids and credential candidates\<close>

text \<open>
  \<open>old\<close> occurs in \<open>s\<close>: some suffix of \<open>s\<close> starts with it.
\<close>

fun occurs :: "string \<Rightarrow> string \<Rightarrow> bool" where
  "occurs old [] = startswith [] old"
| "occurs old (c # cs) = (startswith (c # cs) old \<or> occurs old cs)"

text \<open>
  The text without a suffix, when it ends with that suffix.
\<close>

definition remove_suffix :: "string \<Rightarrow> string \<Rightarrow> string" where
  "remove_suffix suf s = (if suffix suf s then take (length s - length suf) s else s)"

text \<open>
  The output id in the words of the specification: the final path segment of the
  reference, without the query string and without the suffix \<^verbatim>\<open>.js\<close>, with the unsafe
  characters replaced.
\<close>

definition spec_output_id :: "string \<Rightarrow> string" where
  "spec_output_id ref = sub_unsafe (remove_suffix ''.js'' (before_query (basename ref)))"

text \<open>
  The keywords of a credential, in the words of the specification: \<^verbatim>\<open>api_key\<close>,
  \<^verbatim>\<open>api-key\<close>, \<^verbatim>\<open>apikey\<close>, \<^verbatim>\<open>token\<close> and \<^verbatim>\<open>secret\<close>, in any case of the letters.
\<close>

definition is_keyword :: "string \<Rightarrow> bool" where
  "is_keyword kw =
     (map tolower kw \<in> set [''api_key'', ''api-key'', ''apikey'', ''token'', ''secret''])"

text \<open>
  A text starts with a match, in the words of the specification: a keyword, a run of
  separators (\<^verbatim>\<open>=\<close>, \<^verbatim>\<open>:\<close> or whitespace), an optional quote, and the captured value \<open>v\<close>:
  a run of at least 8 word characters or hyphens that ends where the text ends or another
  character follows. \<open>rest\<close> is the text behind the match.
\<close>

definition spec_match :: "string \<Rightarrow> string \<Rightarrow> string \<Rightarrow> bool" where
  "spec_match s v rest =
     (\<exists>kw seps q. s = kw @ seps @ q @ v @ rest \<and> is_keyword kw \<and>
        seps \<noteq> [] \<and> (\<forall>c \<in> set seps. is_separator c) \<and>
        (q = [] \<or> (\<exists>c. q = [c] \<and> is_quote c)) \<and>
        8 \<le> length v \<and> (\<forall>c \<in> set v. is_token_char c) \<and>
        (rest = [] \<or> \<not> is_token_char (hd rest)))"

text \<open>
  \<open>v\<close> is the captured value of some matching substring of the text.
\<close>

definition spec_candidate :: "string \<Rightarrow> string \<Rightarrow> bool" where
  "spec_candidate text v = (\<exists>pre s rest. text = pre @ s \<and> spec_match s v rest)"

text \<open>
  The matches that a scan from left to right reports: the match that starts at the
  current position, the matches reported behind it, and, where no match starts at the
  current position, the matches reported from the next character on.
\<close>

inductive reported :: "string \<Rightarrow> string \<Rightarrow> bool" where
  first: "spec_match s v rest \<Longrightarrow> reported s v"
| after: "spec_match s u rest \<Longrightarrow> reported rest v \<Longrightarrow> reported s v"
| skip: "(\<forall>u rest. \<not> spec_match (c # s) u rest) \<Longrightarrow> reported s v \<Longrightarrow> reported (c # s) v"

section \<open>Properties of the fetch stage\<close>

lemma fst_get_js_content: "fst (get_js_content w path) = path"
  by (simp add: get_js_content_def split: sum.splits prod.splits)

lemma length_gather_all: "length (gather_all ws paths) = length paths"
  by (simp add: gather_all_def)

lemma nth_gather_all:
  "i < length paths \<Longrightarrow> gather_all ws paths ! i = get_js_content (ws i) (paths ! i)"
  by (simp add: gather_all_def nth_enumerate_eq)

text \<open>
  Claim C2. For every list of source references, \<^verbatim>\<open>gather_all\<close> returns exactly one
  result per reference: the output has the length of the input, and its \<open>i\<close>-th entry is
  the pair of the \<open>i\<close>-th reference and the content or error message of that very fetch,
  whatever the other fetches did. (The empty list is included: nothing depends on the list
  being non-empty.)
\<close>

theorem gather_all_one_result_per_ref:
  "length (gather_all ws paths) = length paths \<and>
   map fst (gather_all ws paths) = paths \<and>
   gather_all ws paths = map (\<lambda>i. get_js_content (ws i) (paths ! i)) [0..<length paths]"
proof (intro conjI)
  show "length (gather_all ws paths) = length paths"
    by (rule length_gather_all)
  show "map fst (gather_all ws paths) = paths"
    by (rule nth_equalityI) (simp_all add: length_gather_all nth_gather_all fst_get_js_content)
  show "gather_all ws paths = map (\<lambda>i. get_js_content (ws i) (paths ! i)) [0..<length paths]"
    by (rule nth_equalityI) (simp_all add: length_gather_all nth_gather_all)
qed

section \<open>Properties of the analysis stage\<close>

lemma sorted_indexed:
  fixes r :: "nat \<Rightarrow> string"
  shows "sorted (map (\<lambda>k. (k, r k)) [i..<j])"
proof -
  have "sorted_wrt (\<lambda>a b. (a, r a) \<le> (b, r b)) [i..<j]"
    by (rule sorted_wrt_mono_rel [of _ "(<)"]) (simp_all add: less_eq_prod_def)
  then show ?thesis
    by (simp add: sorted_wrt_map)
qed

lemma sort_indexed:
  fixes r :: "nat \<Rightarrow> string"
  assumes "mset order = mset [0..<n]"
  shows "sort (map (\<lambda>k. (k, r k)) order) = map (\<lambda>k. (k, r k)) [0..<n]"
proof (rule properties_for_sort)
  show "mset (map (\<lambda>k. (k, r k)) [0..<n]) = mset (map (\<lambda>k. (k, r k)) order)"
    using assms by (metis mset_map)
  show "sorted (map (\<lambda>k. (k, r k)) [0..<n])"
    by (rule sorted_indexed)
qed

lemma batch_explain_with_gemini_eq:
  assumes "0 < max_workers" and "mset order = mset [0..<length texts]"
  shows "batch_explain_with_gemini oracle order texts max_workers vb =
           Inr (if vb then map (\<lambda>idx. Finished (idx + 1)) order else [],
                map (\<lambda>i. explain_with_gemini (oracle i) (texts ! i)) [0..<length texts])"
proof -
  have "map snd (sort (map (\<lambda>idx. (idx, explain_with_gemini (oracle idx) (texts ! idx))) order)) =
        map (\<lambda>i. explain_with_gemini (oracle i) (texts ! i)) [0..<length texts]"
    by (simp add: sort_indexed [OF assms(2)] comp_def)
  with assms(1) show ?thesis
    by (simp add: batch_explain_with_gemini_def future_result_def Let_def)
qed

text \<open>
  Claim C1. For every list of texts, every limit between 1 and 10 and every order in which
  the calls complete (every position of the list once), \<^verbatim>\<open>batch_explain_with_gemini\<close>
  returns a list of the length of the input whose \<open>i\<close>-th entry is the result of analysing
  the \<open>i\<close>-th text. The completion order shows only in the progress messages.
\<close>

theorem batch_results_in_input_order:
  assumes "1 \<le> max_workers" and "max_workers \<le> 10"
    and "mset order = mset [0..<length texts]"
  shows "batch_explain_with_gemini oracle order texts max_workers vb =
           Inr (if vb then map (\<lambda>idx. Finished (idx + 1)) order else [],
                map (\<lambda>i. explain_with_gemini (oracle i) (texts ! i)) [0..<length texts])"
  using assms by (intro batch_explain_with_gemini_eq) simp_all

theorem batch_results_in_input_order_witness:
  "(1::int) \<le> 3 \<and> (3::int) \<le> 10 \<and> mset [2, 0, 1] = mset [0..<length [''a'', ''b'', ''c'']] \<and>
   batch_explain_with_gemini (\<lambda>i p. if i = 1 then Inl ''quota'' else Inr p) [2, 0, 1]
     [''a'', ''b'', ''c''] 3 True =
   Inr ([Finished 3, Finished 1, Finished 2],
        map (\<lambda>i. explain_with_gemini (\<lambda>p. if i = 1 then Inl ''quota'' else Inr p)
                 ([''a'', ''b'', ''c''] ! i))
          [0..<length [''a'', ''b'', ''c'']])"
proof -
  have h: "mset [2, 0, 1] = mset [0..<length [''a'', ''b'', ''c'']]"
    by (simp add: upt_rec)
  show ?thesis
    using batch_results_in_input_order [of 3 "[2, 0, 1]" "[''a'', ''b'', ''c'']"
        "\<lambda>i p. if i = 1 then Inl ''quota'' else Inr p" True] h
    by simp
qed

section \<open>Properties of the extraction\<close>

text \<open>
  Claim C6. Extraction is a function of the text: run again on the same text, under
  any enumeration order of Python sets, it yields the same set of locators and the same
  set of credential candidates; each list returned is free of duplicates; and the sets
  are those of the matches found, whatever the order in which they were found.
\<close>

theorem extract_info_same_sets:
  assumes "set_lister lst" and "set_lister lst'"
  shows "set (urls (extract_info lst text)) = set (urls (extract_info lst' text)) \<and>
         set (tokens (extract_info lst text)) = set (tokens (extract_info lst' text)) \<and>
         distinct (urls (extract_info lst text)) \<and> distinct (tokens (extract_info lst text)) \<and>
         set (urls (extract_info lst text)) = set (findall_urls text) \<and>
         set (tokens (extract_info lst text)) = set (findall_tokens text) \<and>
         (\<forall>xs ys. set xs = set ys \<longrightarrow> set (lst xs) = set (lst' ys))"
  using assms by (simp add: set_lister_def extract_info_def)

theorem extract_info_same_sets_witness:
  "set_lister remdups \<and> set_lister (\<lambda>xs. rev (remdups xs)) \<and>
   set (tokens (extract_info remdups ''token=abcdefgh token=abcdefgh'')) =
   set (tokens (extract_info (\<lambda>xs. rev (remdups xs)) ''token=abcdefgh token=abcdefgh'')) \<and>
   distinct (tokens (extract_info remdups ''token=abcdefgh token=abcdefgh''))"
proof -
  have h: "set_lister remdups" "set_lister (\<lambda>xs. rev (remdups xs))"
    by (simp_all add: set_lister_def)
  show ?thesis
    using extract_info_same_sets [OF h, of "''token=abcdefgh token=abcdefgh''"] h
    by simp
qed

section \<open>Properties of the output name\<close>

lemma is_unsafe_underscore: "\<not> is_unsafe (CHR ''_'')"
  by (simp add: is_unsafe_def unsafe_codes_def code_def)

lemma sub_unsafe_safe: "c \<in> set (sub_unsafe s) \<Longrightarrow> \<not> is_unsafe c"
  by (auto simp: sub_unsafe_def is_unsafe_underscore split: if_splits)

text \<open>
  Claim C7. For every source reference, the derived output name contains none of the
  characters \<^verbatim>\<open>\ / * ? : " < > |\<close>.
\<close>

theorem output_name_has_no_unsafe_character:
  "set (output_name path) \<inter>
     {CHR 0x5C, CHR ''/'', CHR ''*'', CHR ''?'', CHR '':'', CHR 0x22, CHR ''<'', CHR ''>'',
      CHR ''|''} = {}"
proof -
  have "\<not> is_unsafe c" if "c \<in> set (output_name path)" for c
    using that by (auto simp: output_name_def Let_def dest: sub_unsafe_safe)
  moreover have "is_unsafe c"
    if "c \<in> {CHR 0x5C, CHR ''/'', CHR ''*'', CHR ''?'', CHR '':'', CHR 0x22, CHR ''<'',
              CHR ''>'', CHR ''|''}" for c
    using that by (auto simp: is_unsafe_def unsafe_codes_def code_def)
  ultimately show ?thesis by blast
qed

section \<open>Properties of the driver\<close>

lemma position_of_nth:
  "distinct xs \<Longrightarrow> k < length xs \<Longrightarrow> length (takeWhile (\<lambda>x. x \<noteq> xs ! k) xs) = k"
proof (induction xs arbitrary: k)
  case Nil
  then show ?case by simp
next
  case (Cons a as)
  show ?case
  proof (cases k)
    case 0
    then show ?thesis by simp
  next
    case (Suc k')
    with Cons.prems have "as ! k' \<noteq> a" and "distinct as" and "k' < length as"
      by auto
    with Cons.IH [of k'] show ?thesis by (simp add: Suc)
  qed
qed

lemma filter_eq_singleton:
  "distinct xs \<Longrightarrow> k \<in> set xs \<Longrightarrow> filter (\<lambda>x. k = x) xs = [k]"
  by (induction xs) (auto simp: filter_empty_conv)

lemma every_order_is_a_completion:
  assumes "mset order = mset [0..<n]"
  shows "\<exists>finish_time. as_completed finish_time n = order"
proof -
  let ?f = "\<lambda>i. length (takeWhile (\<lambda>x. x \<noteq> i) order)"
  have d: "distinct order"
    using assms by (metis distinct_upt mset_eq_imp_distinct_iff)
  have len: "length order = n"
    using assms by (metis length_upt mset_eq_length minus_nat.diff_0)
  have set: "set order = {0..<n}"
    using assms by (metis mset_eq_setD set_upt)
  have pos: "?f (order ! k) = k" if "k < n" for k
    using position_of_nth [OF d] that len by simp
  have inj: "?f i = ?f j \<longleftrightarrow> i = j" if "i \<in> set order" "j \<in> set order" for i j
    using that pos len by (metis in_set_conv_nth)
  have "sort_key ?f [0..<n] = order"
  proof (rule properties_for_sort_key)
    show "mset order = mset [0..<n]" by (rule assms)
    show "filter (\<lambda>x. ?f k = ?f x) order = filter (\<lambda>x. ?f k = ?f x) [0..<n]"
      if "k \<in> set order" for k
    proof -
      have "filter (\<lambda>x. ?f k = ?f x) order = filter (\<lambda>x. k = x) order"
        using inj [OF that] by (intro filter_cong) auto
      moreover have "filter (\<lambda>x. ?f k = ?f x) [0..<n] = filter (\<lambda>x. k = x) [0..<n]"
        using inj [OF that] set by (intro filter_cong) auto
      moreover have "filter (\<lambda>x. k = x) order = [k]"
        using d that by (rule filter_eq_singleton)
      moreover have "filter (\<lambda>x. k = x) [0..<n] = [k]"
        using that set by (intro filter_eq_singleton) auto
      ultimately show ?thesis by simp
    qed
    have "map ?f order = [0..<n]"
      by (rule nth_equalityI) (simp_all add: len pos)
    then show "sorted (map ?f order)" by simp
  qed
  then show ?thesis
    unfolding as_completed_def by blast
qed



lemma get_js_content_retrieved:
  "retrieved w path = Some text \<Longrightarrow> get_js_content w path = (path, text)"
  by (auto simp: retrieved_def get_js_content_def split: if_splits sum.splits prod.splits)


lemma fetched_nth:
  "input_lines w = Some lines \<Longrightarrow> i < length (read_paths lines) \<Longrightarrow>
   fetched w ! i = get_js_content (fetch_io w i) (read_paths lines ! i)"
  by (simp add: fetched_def nth_gather_all)

lemma fetched_length:
  "input_lines w = Some lines \<Longrightarrow> length (fetched w) = length (read_paths lines)"
  by (simp add: fetched_def length_gather_all)

lemma gather_all_Nil: "gather_all ws [] = []"
  by (simp add: gather_all_def)

lemma main_no_input:
  "input_lines w = None \<Longrightarrow>
   main a w = \<lparr>printed = [Input_not_found], normalized = [], submitted = [], written = [],
              raised = None\<rparr>"
  by (simp add: main_def)

lemma main_no_paths:
  "input_lines w = Some lines \<Longrightarrow> read_paths lines = [] \<Longrightarrow>
   main a w = \<lparr>printed = [No_paths], normalized = [], submitted = [], written = [],
              raised = None\<rparr>"
  by (simp add: main_def)

lemma main_no_valid:
  "input_lines w = Some lines \<Longrightarrow> read_paths lines \<noteq> [] \<Longrightarrow> valid_js (fetched w) = [] \<Longrightarrow>
   main a w = \<lparr>printed = skipped_messages a w @ [No_valid_files], normalized = [],
              submitted = [], written = [], raised = None\<rparr>"
  by (simp add: main_def fetched_def skipped_messages_def)

lemma fetched_no_paths:
  "input_lines w = Some lines \<Longrightarrow> read_paths lines = [] \<Longrightarrow> fetched w = []"
  by (simp add: fetched_def gather_all_Nil)

lemma fetched_no_input: "input_lines w = None \<Longrightarrow> fetched w = []"
  by (simp add: fetched_def)

lemma valid_js_Nil: "valid_js [] = []"
  by (simp add: valid_js_def)

lemma main_cases:
  obtains
    (no_input) "input_lines w = None" "fetched w = []"
  | (no_paths) lines where "input_lines w = Some lines" "read_paths lines = []" "fetched w = []"
  | (no_valid) lines where "input_lines w = Some lines" "read_paths lines \<noteq> []"
      "valid_js (fetched w) = []"
  | (analysis) lines where "input_lines w = Some lines" "read_paths lines \<noteq> []"
      "valid_js (fetched w) \<noteq> []"
proof (cases "input_lines w")
  case None
  then show ?thesis using no_input fetched_no_input by blast
next
  case (Some lines)
  then show ?thesis
    using no_paths [OF Some] no_valid [OF Some] analysis [OF Some] fetched_no_paths [OF Some]
    by blast
qed

lemma errored_Nil: "errored [] = []"
  by (simp add: errored_def)

lemma beautified_codes_nth:
  "i < length (valid_js (fetched w)) \<Longrightarrow>
   beautified_codes w ! i = beautify w (snd (valid_js (fetched w) ! i))"
  by (simp add: beautified_codes_def case_prod_unfold)

lemma length_beautified_codes: "length (beautified_codes w) = length (valid_js (fetched w))"
  by (simp add: beautified_codes_def)

lemma mem_filter_nth: "i < length xs \<Longrightarrow> P (xs ! i) \<Longrightarrow> xs ! i \<in> set (filter P xs)"
  by simp

lemma as_completed_mset: "mset (as_completed f n) = mset [0..<n]"
  by (simp add: as_completed_def)

lemma main_batch:
  "batch_explain_with_gemini (oracle_at w) (as_completed (latency w) (length (beautified_codes w)))
     (beautified_codes w) (max 1 (min (thread a) 10)) (verbose a) =
   Inr (finished_messages a w,
        map (\<lambda>i. explain_with_gemini (oracle_at w i) (beautified_codes w ! i))
          [0..<length (beautified_codes w)])"
  unfolding finished_messages_def
  by (rule batch_explain_with_gemini_eq [OF _ as_completed_mset]) simp

lemma save_loop_eq:
  assumes "\<forall>(i, path, code_text) \<in> set items. i < length expl"
  shows "save_loop w say expl items =
          (if say then map (\<lambda>(i, path, code_text). Saved (output_name path))
                         (takeWhile (write_succeeds w) items) else [],
           map (\<lambda>(i, path, code_text).
                  (md_path (output_name path),
                   md_text (expl ! i) (extract_info (list_of_set w) code_text)))
             (takeWhile (write_succeeds w) items),
           case dropWhile (write_succeeds w) items of
             [] \<Rightarrow> None
           | (i, path, code_text) # rest \<Rightarrow> storage_fault w (md_path (output_name path)))"
  using assms
proof (induction items)
  case Nil
  show ?case by simp
next
  case (Cons item items)
  obtain i path code_text where item: "item = (i, path, code_text)"
    by (cases item)
  from Cons.prems have i: "i < length expl"
    and rest: "\<forall>(i, path, code_text) \<in> set items. i < length expl"
    by (auto simp: item)
  show ?case
  proof (cases "storage_fault w (md_path (output_name path))")
    case None
    then have ok: "write_succeeds w (i, path, code_text)"
      by (simp add: write_succeeds_def)
    show ?thesis
      using i None ok by (simp add: item save_output_def Let_def Cons.IH [OF rest])
  next
    case (Some e)
    then have bad: "\<not> write_succeeds w (i, path, code_text)"
      by (simp add: write_succeeds_def)
    show ?thesis
      using i Some bad by (simp add: item save_output_def Let_def)
  qed
qed

lemma main_analysis:
  assumes "input_lines w = Some lines" and "read_paths lines \<noteq> []"
    and "valid_js (fetched w) \<noteq> []"
  shows "main a w =
    \<lparr>printed = skipped_messages a w @ sending_messages a w @ finished_messages a w @
       saved_messages a w @ (if first_fault w = None \<and> \<not> quiet a then [Done] else []),
     normalized = map snd (valid_js (fetched w)),
     submitted = beautified_codes w,
     written = map (\<lambda>(i, item). record_of w i item) (recorded w),
     raised = first_fault w\<rparr>"
proof -
  let ?valid = "valid_js (fetched w)"
  let ?expl = "map (\<lambda>i. explain_with_gemini (oracle_at w i) (beautified_codes w ! i))
                 [0..<length (beautified_codes w)]"
  have range: "\<forall>(i, path, code_text) \<in> set (enumerate 0 ?valid). i < length ?expl"
    by (auto simp: in_set_enumerate_eq length_beautified_codes)
  have files: "map (\<lambda>(i, path, code_text).
                  (md_path (output_name path),
                   md_text (?expl ! i) (extract_info (list_of_set w) code_text)))
                 (recorded w) =
               map (\<lambda>(i, item). record_of w i item) (recorded w)"
  proof (rule map_cong [OF refl])
    fix x assume "x \<in> set (recorded w)"
    then have mem: "x \<in> set (enumerate 0 ?valid)"
      unfolding recorded_def by (rule set_takeWhileD [THEN conjunct1])
    obtain i path code_text where x: "x = (i, path, code_text)"
      by (cases x)
    from mem have i: "i < length ?valid" and item: "?valid ! i = (path, code_text)"
      by (simp_all add: x in_set_enumerate_eq)
    show "(case x of (i, path, code_text) \<Rightarrow>
                  (md_path (output_name path),
                   md_text (?expl ! i) (extract_info (list_of_set w) code_text))) =
               (case x of (i, item) \<Rightarrow> record_of w i item)"
      using i by (simp add: x record_of_def length_beautified_codes beautified_codes_nth item)
  qed
  have loop: "save_loop w (verbose a \<and> \<not> quiet a) ?expl (enumerate 0 ?valid) =
      (saved_messages a w, map (\<lambda>(i, item). record_of w i item) (recorded w), first_fault w)"
    unfolding save_loop_eq [OF range]
    by (simp add: saved_messages_def first_fault_def files [unfolded recorded_def] recorded_def)
  have "main a w =
    (case batch_explain_with_gemini (oracle_at w)
            (as_completed (latency w) (length (beautified_codes w)))
            (beautified_codes w) (max 1 (min (thread a) 10)) (verbose a) of
       Inl e \<Rightarrow>
         \<lparr>printed = skipped_messages a w @ sending_messages a w,
          normalized = map snd (valid_js (fetched w)),
          submitted = [], written = [], raised = Some e\<rparr>
     | Inr (out3, explanations) \<Rightarrow>
         (case save_loop w (verbose a \<and> \<not> quiet a) explanations
                 (enumerate 0 (valid_js (fetched w))) of
            (out4, files, r) \<Rightarrow>
              \<lparr>printed = skipped_messages a w @ sending_messages a w @ out3 @ out4 @
                 (if r = None \<and> \<not> quiet a then [Done] else []),
               normalized = map snd (valid_js (fetched w)),
               submitted = beautified_codes w,
               written = files, raised = r\<rparr>))"
    using assms
    by (simp add: main_def Let_def fetched_def skipped_messages_def sending_messages_def
        beautified_codes_def split: sum.split prod.split)
  then show ?thesis
    by (simp add: main_batch loop)
qed

lemma recorded_Nil: "valid_js (fetched w) = [] \<Longrightarrow> recorded w = []"
  by (simp add: recorded_def)


lemma main_normalized: "normalized (main a w) = map snd (valid_js (fetched w))"
  by (cases w rule: main_cases)
    (simp_all add: main_no_input main_no_paths main_no_valid main_analysis valid_js_Nil)

lemma main_submitted:
  "submitted (main a w) = map (\<lambda>(path, code_text). beautify w code_text) (valid_js (fetched w))"
  by (cases w rule: main_cases)
    (simp_all add: main_no_input main_no_paths main_no_valid main_analysis valid_js_Nil
      beautified_codes_def)

lemma main_written: "written (main a w) = map (\<lambda>(i, item). record_of w i item) (recorded w)"
  by (cases w rule: main_cases)
    (simp_all add: main_no_input main_no_paths main_no_valid main_analysis valid_js_Nil
      recorded_Nil)


lemma main_skipped:
  assumes "\<not> quiet a" and "(path, error) \<in> set (errored (fetched w))"
  shows "Skipped path error \<in> set (printed (main a w))"
proof (cases w rule: main_cases)
  case no_input
  with assms(2) show ?thesis by (simp add: errored_Nil)
next
  case (no_paths lines)
  with assms(2) show ?thesis by (simp add: errored_Nil)
next
  case (no_valid lines)
  have "Skipped path error \<in> set (skipped_messages a w)"
    using assms by (force simp: skipped_messages_def)
  then show ?thesis by (simp add: main_no_valid [OF no_valid])
next
  case (analysis lines)
  have "Skipped path error \<in> set (skipped_messages a w)"
    using assms by (force simp: skipped_messages_def)
  then show ?thesis by (simp add: main_analysis [OF analysis])
qed

lemma main_quiet:
  assumes "quiet a"
  shows "Skipped path error \<notin> set (printed (main a w))"
proof (cases w rule: main_cases)
  case no_input
  then show ?thesis by (simp add: main_no_input)
next
  case (no_paths lines)
  then show ?thesis by (simp add: main_no_paths)
next
  case (no_valid lines)
  then show ?thesis using assms by (simp add: main_no_valid skipped_messages_def)
next
  case (analysis lines)
  show ?thesis
    using assms
    by (auto simp: main_analysis [OF analysis] skipped_messages_def sending_messages_def
        finished_messages_def saved_messages_def)
qed






lemma map_snd_recorded:
  "map snd (recorded w) = take (length (recorded w)) (valid_js (fetched w))"
proof -
  have "recorded w = take (length (recorded w)) (enumerate 0 (valid_js (fetched w)))"
    unfolding recorded_def by (rule takeWhile_eq_take)
  then have "map snd (recorded w) =
      take (length (recorded w)) (map snd (enumerate 0 (valid_js (fetched w))))"
    by (metis take_map)
  then show ?thesis by simp
qed








lemma example_input: "input_lines example_world = Some example_lines"
  by (simp add: example_world_def)

lemma example_paths:
  "read_paths example_lines = [''a.js'', ''http://x/y.js'', ''log.js'', ''http://x/b.js?v=2'']"
  by code_simp







lemma not_recorded:
  "is_error (snd item) \<Longrightarrow> item \<notin> set (map snd (recorded w))"
proof
  assume e: "is_error (snd item)" and "item \<in> set (map snd (recorded w))"
  then have "item \<in> set (take (length (recorded w)) (valid_js (fetched w)))"
    by (simp add: map_snd_recorded)
  then have "item \<in> set (valid_js (fetched w))"
    by (rule in_set_takeD)
  with e show False
    by (auto simp: valid_js_def)
qed

text \<open>
  Claim C10, as amended. Whether a fetched item counts as content or as an error is
  decided by one test: whether its text begins with \<^verbatim>\<open>[ERROR]\<close>. So an item whose fetch
  succeeds (a response with status 200, or a file that was read) but whose text begins
  with \<^verbatim>\<open>[ERROR]\<close> is put among the errored items; it is printed as skipped when the run is
  not quiet, and not reported when the run is quiet; and it is neither normalized nor
  analysed nor recorded: the texts normalized and submitted and the records written are
  those of valid items, and it is none of them.
\<close>

theorem error_prefix_classifies_as_fetch_error:
  assumes "input_lines w = Some lines" and "i < length (read_paths lines)"
    and "retrieved (fetch_io w i) (read_paths lines ! i) = Some text"
    and "startswith text ''[ERROR]''"
  shows "fetched w ! i = (read_paths lines ! i, text) \<and>
         valid_js (fetched w) =
           filter (\<lambda>(path, content). \<not> startswith content ''[ERROR]'') (fetched w) \<and>
         errored (fetched w) =
           filter (\<lambda>(path, content). startswith content ''[ERROR]'') (fetched w) \<and>
         (read_paths lines ! i, text) \<in> set (errored (fetched w)) \<and>
         (read_paths lines ! i, text) \<notin> set (valid_js (fetched w)) \<and>
         (\<not> quiet a \<longrightarrow> Skipped (read_paths lines ! i) text \<in> set (printed (main a w))) \<and>
         (quiet a \<longrightarrow> Skipped (read_paths lines ! i) text \<notin> set (printed (main a w))) \<and>
         normalized (main a w) = map snd (valid_js (fetched w)) \<and>
         text \<notin> set (normalized (main a w)) \<and>
         submitted (main a w) =
           map (\<lambda>(path, code_text). beautify w code_text) (valid_js (fetched w)) \<and>
         written (main a w) = map (\<lambda>(j, item). record_of w j item) (recorded w) \<and>
         (read_paths lines ! i, text) \<notin> set (map snd (recorded w))"
proof -
  have item: "fetched w ! i = (read_paths lines ! i, text)"
    by (simp add: fetched_nth [OF assms(1,2)] get_js_content_retrieved [OF assms(3)])
  have err: "is_error text"
    using assms(4) by (simp add: is_error_def error_tag_def)
  have len: "i < length (fetched w)"
    using assms(2) by (simp add: fetched_length [OF assms(1)])
  have in_err: "(read_paths lines ! i, text) \<in> set (errored (fetched w))"
    unfolding errored_def using mem_filter_nth [OF len, of "\<lambda>(path, content). is_error content"] err
    by (simp add: item)
  have not_valid: "(read_paths lines ! i, text) \<notin> set (valid_js (fetched w))"
    using err by (simp add: valid_js_def)
  have not_norm: "text \<notin> set (normalized (main a w))"
    using err by (auto simp: main_normalized valid_js_def)
  have v: "valid_js (fetched w) =
      filter (\<lambda>(path, content). \<not> startswith content ''[ERROR]'') (fetched w)"
    by (simp add: valid_js_def is_error_def error_tag_def)
  have e: "errored (fetched w) =
      filter (\<lambda>(path, content). startswith content ''[ERROR]'') (fetched w)"
    by (simp add: errored_def is_error_def error_tag_def)
  have loud: "\<not> quiet a \<longrightarrow> Skipped (read_paths lines ! i) text \<in> set (printed (main a w))"
    using main_skipped [OF _ in_err] by blast
  have silent: "quiet a \<longrightarrow> Skipped (read_paths lines ! i) text \<notin> set (printed (main a w))"
    using main_quiet by blast
  have not_rec: "(read_paths lines ! i, text) \<notin> set (map snd (recorded w))"
    using err by (intro not_recorded) simp
  from item v e in_err not_valid loud silent main_normalized [of a w] not_norm
    main_submitted [of a w] main_written [of a w] not_rec
  show ?thesis by blast
qed

lemma example_text: "retrieved (fetch_io example_world 2) (read_paths example_lines ! 2) =
     Some ''[ERROR] handler missing''"
  by (simp add: example_paths retrieved_def example_world_def example_io_def)

theorem error_prefix_classifies_as_fetch_error_witness:
  "input_lines example_world = Some example_lines \<and>
   2 < length (read_paths example_lines) \<and>
   retrieved (fetch_io example_world 2) (read_paths example_lines ! 2) =
     Some ''[ERROR] handler missing'' \<and>
   startswith ''[ERROR] handler missing'' ''[ERROR]'' \<and>
   \<not> quiet example_args \<and>
   Skipped ''log.js'' ''[ERROR] handler missing'' \<in> set (printed (main example_args example_world)) \<and>
   quiet quiet_args \<and>
   Skipped ''log.js'' ''[ERROR] handler missing'' \<notin> set (printed (main quiet_args example_world)) \<and>
   ''[ERROR] handler missing'' \<notin> set (normalized (main example_args example_world)) \<and>
   (''log.js'', ''[ERROR] handler missing'') \<notin> set (map snd (recorded example_world))"
proof -
  have h2: "2 < length (read_paths example_lines)"
    by (simp add: example_paths)
  have h4: "startswith ''[ERROR] handler missing'' ''[ERROR]''"
    by simp
  have q: "\<not> quiet example_args" "quiet quiet_args"
    by (simp_all add: example_args_def quiet_args_def)
  have p: "read_paths example_lines ! 2 = ''log.js''"
    by (simp add: example_paths)
  have loud: "(\<not> quiet example_args \<longrightarrow>
           Skipped (read_paths example_lines ! 2) ''[ERROR] handler missing''
             \<in> set (printed (main example_args example_world))) \<and>
        ''[ERROR] handler missing'' \<notin> set (normalized (main example_args example_world)) \<and>
        (read_paths example_lines ! 2, ''[ERROR] handler missing'')
          \<notin> set (map snd (recorded example_world))"
    using error_prefix_classifies_as_fetch_error [OF example_input h2 example_text h4,
        of example_args]
    by blast
  have silent: "quiet quiet_args \<longrightarrow>
           Skipped (read_paths example_lines ! 2) ''[ERROR] handler missing''
             \<notin> set (printed (main quiet_args example_world))"
    using error_prefix_classifies_as_fetch_error [OF example_input h2 example_text h4,
        of quiet_args]
    by blast
  from loud silent q example_input h2 example_text h4 show ?thesis
    unfolding p by blast
qed

text \<open>
  The claim C10 as it was stated fails in a quiet run: the fetch of \<^verbatim>\<open>log.js\<close> succeeds
  with a text that begins with \<^verbatim>\<open>[ERROR]\<close>, and nothing is printed.
\<close>

theorem quiet_run_reports_no_skipped_item:
  "input_lines example_world = Some example_lines \<and>
   2 < length (read_paths example_lines) \<and>
   retrieved (fetch_io example_world 2) (read_paths example_lines ! 2) =
     Some ''[ERROR] handler missing'' \<and>
   startswith ''[ERROR] handler missing'' ''[ERROR]'' \<and>
   printed (main quiet_args example_world) = []"
  by code_simp





section \<open>The output name and the suffix\<close>

lemma replace_Nil: "replace ''.js'' new [] = []"
  by (simp add: replace.simps)

lemma replace_at: "replace ''.js'' new (''.js'' @ post) = new @ replace ''.js'' new post"
  by (subst replace.simps) simp

lemma replace_skip:
  "\<not> startswith (c # cs) ''.js'' \<Longrightarrow> replace ''.js'' new (c # cs) = c # replace ''.js'' new cs"
  by (subst replace.simps) auto

lemma startswith_js_append:
  "startswith (pre @ ''.js'' @ post) ''.js'' \<Longrightarrow> pre \<noteq> [] \<Longrightarrow> startswith pre ''.js''"
proof -
  assume s: "startswith (pre @ ''.js'' @ post) ''.js''" and ne: "pre \<noteq> []"
  then obtain a p1 where p: "pre = a # p1" by (cases pre) auto
  show ?thesis
  proof (cases p1)
    case Nil
    with s p show ?thesis by simp
  next
    case (Cons b p2)
    show ?thesis
    proof (cases p2)
      case Nil
      with s p Cons show ?thesis by simp
    next
      case (Cons c p3)
      with s p \<open>p1 = b # p2\<close> show ?thesis by simp
    qed
  qed
qed

lemma replace_first_occurrence:
  "\<not> occurs ''.js'' pre \<Longrightarrow>
   replace ''.js'' new (pre @ ''.js'' @ post) = pre @ new @ replace ''.js'' new post"
proof (induction pre)
  case Nil
  show ?case using replace_at [of new post] by simp
next
  case (Cons c pre)
  then have no: "\<not> startswith (c # pre) ''.js''" and rest: "\<not> occurs ''.js'' pre"
    by simp_all
  have "\<not> startswith ((c # pre) @ ''.js'' @ post) ''.js''"
    using no startswith_js_append [of "c # pre" post] by blast
  then have "replace ''.js'' new ((c # pre) @ ''.js'' @ post) =
      c # replace ''.js'' new (pre @ ''.js'' @ post)"
    using replace_skip [of c "pre @ ''.js'' @ post" new] by simp
  with Cons.IH [OF rest] show ?case by simp
qed

lemma replace_no_occurrence: "\<not> occurs ''.js'' s \<Longrightarrow> replace ''.js'' new s = s"
proof (induction s)
  case Nil
  show ?case by (rule replace_Nil)
next
  case (Cons c s)
  then show ?case by (simp add: replace_skip)
qed

lemma remove_suffix_js: "\<not> occurs ''.js'' (remove_suffix ''.js'' s) \<Longrightarrow>
  replace ''.js'' [] s = remove_suffix ''.js'' s"
proof (cases "suffix ''.js'' s")
  case True
  assume no: "\<not> occurs ''.js'' (remove_suffix ''.js'' s)"
  from True obtain stem where s: "s = stem @ ''.js''"
    by (auto simp: suffix_def)
  have r: "remove_suffix ''.js'' (stem @ ''.js'') = stem"
    by (simp add: remove_suffix_def suffix_def)
  have "\<not> occurs ''.js'' stem"
    using no unfolding s r .
  then have "replace ''.js'' [] (stem @ ''.js'') = stem"
    using replace_first_occurrence [of stem "[]" "[]"] by (simp add: replace_Nil)
  then show ?thesis
    unfolding s r .
next
  case False
  assume no: "\<not> occurs ''.js'' (remove_suffix ''.js'' s)"
  from False have r: "remove_suffix ''.js'' s = s"
    by (simp add: remove_suffix_def)
  show ?thesis
    using replace_no_occurrence [of s "[]"] no by (simp add: r)
qed

lemma sub_unsafe_append: "sub_unsafe (xs @ ys) = sub_unsafe xs @ sub_unsafe ys"
  by (simp add: sub_unsafe_def)

text \<open>
  Where \<^verbatim>\<open>.js\<close> occurs in the segment only as its suffix, or not at all, the program
  derives the id of the specification. In general the first occurrence is removed wherever
  it is, and the removal goes on behind it.
\<close>

lemma output_name_removes_every_js:
  "(\<not> occurs ''.js'' (remove_suffix ''.js'' (before_query (basename ref))) \<longrightarrow>
      output_name ref = spec_output_id ref) \<and>
   (before_query (basename ref) = pre @ ''.js'' @ post \<and> \<not> occurs ''.js'' pre \<longrightarrow>
      output_name ref = sub_unsafe pre @ sub_unsafe (replace ''.js'' [] post)) \<and>
   length (output_name ref) \<le> length (before_query (basename ref))"
proof (intro conjI impI)
  assume "\<not> occurs ''.js'' (remove_suffix ''.js'' (before_query (basename ref)))"
  then show "output_name ref = spec_output_id ref"
    by (simp add: output_name_def spec_output_id_def Let_def remove_suffix_js)
next
  assume "before_query (basename ref) = pre @ ''.js'' @ post \<and> \<not> occurs ''.js'' pre"
  then show "output_name ref = sub_unsafe pre @ sub_unsafe (replace ''.js'' [] post)"
    using replace_first_occurrence [of pre "[]" post]
    by (simp add: output_name_def Let_def sub_unsafe_append)
next
  have "length (replace ''.js'' [] s) \<le> length s" for s
  proof (induction s rule: length_induct)
    case (1 s)
    show ?case
    proof (cases "startswith s ''.js''")
      case True
      then obtain post where s: "s = ''.js'' @ post"
        by (cases s; cases "tl s"; cases "tl (tl s)") (auto split: if_splits)
      have "length (replace ''.js'' [] post) \<le> length post"
        using 1 s by simp
      then show ?thesis
        by (simp add: s replace_at [of "[]" post, simplified])
    next
      case False
      show ?thesis
      proof (cases s)
        case Nil
        then show ?thesis by (simp add: replace_Nil)
      next
        case (Cons c cs)
        with False 1 show ?thesis by (simp add: replace_skip)
      qed
    qed
  qed
  then show "length (output_name ref) \<le> length (before_query (basename ref))"
    by (simp add: output_name_def Let_def sub_unsafe_def)
qed

text \<open>
  Claim C8. The claim takes the output id to be the final path segment without the query
  string and without the suffix \<^verbatim>\<open>.js\<close>, with unsafe characters replaced and nothing else
  altered. The program removes every occurrence of \<^verbatim>\<open>.js\<close> in the segment: for the
  reference \<^verbatim>\<open>http://cdn.example/jquery.jsonp.js\<close> it derives \<^verbatim>\<open>jqueryonp\<close>, where the
  claim gives \<^verbatim>\<open>jquery.jsonp\<close>.
\<close>

theorem output_name_removes_inner_js:
  "before_query (basename ''http://cdn.example/jquery.jsonp.js'') = ''jquery.jsonp.js'' \<and>
   output_name ''http://cdn.example/jquery.jsonp.js'' = ''jqueryonp'' \<and>
   spec_output_id ''http://cdn.example/jquery.jsonp.js'' = ''jquery.jsonp''"
  by code_simp

section \<open>The credential candidates and the scan\<close>

lemma code_inject: "code c = code d \<Longrightarrow> c = d"
  by (simp add: code_def)

lemma code_tolower:
  "code (tolower c) =
     (if (65 \<le> code c \<and> code c \<le> 90) \<or> (192 \<le> code c \<and> code c \<le> 214) \<or>
         (216 \<le> code c \<and> code c \<le> 222)
      then code c + 32 else code c)"
  by (auto simp: tolower_def Let_def code_def)

lemma tolower_underscore: "tolower c = CHR ''_'' \<longleftrightarrow> code c = 95"
proof
  assume "tolower c = CHR ''_''"
  then have "code (tolower c) = 95" by (simp add: code_def)
  then show "code c = 95" by (simp add: code_tolower split: if_splits)
next
  assume "code c = 95"
  then have "code (tolower c) = 95" by (simp add: code_tolower)
  then show "tolower c = CHR ''_''" by (intro code_inject) (simp add: code_def)
qed

lemma tolower_hyphen: "tolower c = CHR ''-'' \<longleftrightarrow> code c = 45"
proof
  assume "tolower c = CHR ''-''"
  then have "code (tolower c) = 45" by (simp add: code_def)
  then show "code c = 45" by (simp add: code_tolower split: if_splits)
next
  assume "code c = 45"
  then have "code (tolower c) = 45" by (simp add: code_tolower)
  then show "tolower c = CHR ''-''" by (intro code_inject) (simp add: code_def)
qed

lemma tolower_k: "tolower c = CHR ''k'' \<Longrightarrow> code c \<noteq> 95 \<and> code c \<noteq> 45"
proof -
  assume "tolower c = CHR ''k''"
  then have "code (tolower c) = 107" by (simp add: code_def)
  then show ?thesis by (simp add: code_tolower split: if_splits)
qed

lemma token_char_not_separator: "is_token_char c \<Longrightarrow> \<not> is_separator c"
  by (auto simp: is_token_char_def is_word_def is_separator_def is_space_def Let_def)

lemma token_char_not_quote: "is_token_char c \<Longrightarrow> \<not> is_quote c"
  by (auto simp: is_token_char_def is_word_def is_quote_def Let_def)

lemma quote_not_separator: "is_quote c \<Longrightarrow> \<not> is_separator c"
  by (auto simp: is_quote_def is_separator_def is_space_def Let_def)

lemma match_literal_ci_iff:
  "match_literal_ci p s = Some r \<longleftrightarrow> (\<exists>kw. s = kw @ r \<and> map tolower kw = p)"
proof (induction p s rule: match_literal_ci.induct)
  case (1 s)
  show ?case by auto
next
  case (2 p ps)
  show ?case by auto
next
  case (3 p ps c cs)
  show ?case
  proof (cases "tolower c = p")
    case True
    with 3 show ?thesis
      by (auto simp: Cons_eq_append_conv map_eq_Cons_conv)
  next
    case False
    then show ?thesis
      by (auto simp: Cons_eq_append_conv map_eq_Cons_conv)
  qed
qed

lemma skip_optional_cases:
  obtains (skipped) c where "s = c # skip_optional P s" "P c"
  | (kept) "skip_optional P s = s" "s = [] \<or> \<not> P (hd s)"
  by (cases s) (auto split: if_splits)

lemma match_keyword_sound:
  assumes "match_keyword s = Some r"
  shows "\<exists>kw. s = kw @ r \<and> is_keyword kw"
proof -
  let ?P = "\<lambda>c. code c = 95 \<or> code c = 45"
  from assms consider
    (api) r0 where "match_literal_ci ''api'' s = Some r0"
      "match_literal_ci ''key'' (skip_optional ?P r0) = Some r"
  | (token) "match_literal_ci ''token'' s = Some r"
  | (secret) "match_literal_ci ''secret'' s = Some r"
    by (auto simp: match_keyword_def split: option.splits)
  then show ?thesis
  proof cases
    case api
    from api(1) obtain k1 where k1: "s = k1 @ r0" "map tolower k1 = ''api''"
      using match_literal_ci_iff by blast
    from api(2) obtain k2 where k2: "skip_optional ?P r0 = k2 @ r" "map tolower k2 = ''key''"
      using match_literal_ci_iff by blast
    show ?thesis
    proof (cases r0 ?P rule: skip_optional_cases)
      case (skipped c)
      then have "tolower c = CHR ''_'' \<or> tolower c = CHR ''-''"
        by (simp add: tolower_underscore tolower_hyphen)
      then have "is_keyword (k1 @ c # k2)"
        using k1(2) k2(2) by (auto simp: is_keyword_def)
      moreover have "s = (k1 @ c # k2) @ r"
        using k1(1) k2(1) skipped(1) by simp
      ultimately show ?thesis by blast
    next
      case kept
      have "is_keyword (k1 @ k2)"
        using k1(2) k2(2) by (simp add: is_keyword_def)
      moreover have "s = (k1 @ k2) @ r"
        using k1(1) k2(1) kept(1) by simp
      ultimately show ?thesis by blast
    qed
  next
    case token
    then show ?thesis
      using match_literal_ci_iff [of "''token''" s r] by (auto simp: is_keyword_def)
  next
    case secret
    then show ?thesis
      using match_literal_ci_iff [of "''secret''" s r] by (auto simp: is_keyword_def)
  qed
qed

lemma match_keyword_complete:
  assumes "is_keyword kw"
  shows "match_keyword (kw @ r) = Some r"
proof -
  from assms consider "map tolower kw = ''api_key''" | "map tolower kw = ''api-key''"
    | "map tolower kw = ''apikey''" | "map tolower kw = ''token''" | "map tolower kw = ''secret''"
    by (auto simp: is_keyword_def)
  then show ?thesis
  proof cases
    case 1
    then show ?thesis
      by (auto simp: match_keyword_def map_eq_Cons_conv tolower_underscore)
  next
    case 2
    then show ?thesis
      by (auto simp: match_keyword_def map_eq_Cons_conv tolower_hyphen)
  next
    case 3
    then show ?thesis
      by (auto simp: match_keyword_def map_eq_Cons_conv dest: tolower_k)
  next
    case 4
    then show ?thesis
      by (auto simp: match_keyword_def map_eq_Cons_conv)
  next
    case 5
    then show ?thesis
      by (auto simp: match_keyword_def map_eq_Cons_conv)
  qed
qed

lemma match_token_sound:
  assumes "match_token s = Some (v, rest)"
  shows "spec_match s v rest"
proof -
  from assms obtain r1 where r1: "match_keyword s = Some r1"
    and seps: "takeWhile is_separator r1 \<noteq> []"
    and v: "v = takeWhile is_token_char (skip_optional is_quote (dropWhile is_separator r1))"
    and len: "8 \<le> length v"
    and rest: "rest = dropWhile is_token_char (skip_optional is_quote (dropWhile is_separator r1))"
    by (auto simp: match_token_def Let_def split: option.splits if_splits)
  from match_keyword_sound [OF r1] obtain kw where kw: "s = kw @ r1" "is_keyword kw"
    by blast
  let ?r2 = "dropWhile is_separator r1"
  have "\<exists>q. ?r2 = q @ skip_optional is_quote ?r2 \<and> (q = [] \<or> (\<exists>c. q = [c] \<and> is_quote c))"
  proof (cases ?r2 is_quote rule: skip_optional_cases)
    case (skipped c)
    then have "?r2 = [c] @ skip_optional is_quote ?r2" by simp
    with skipped(2) show ?thesis by blast
  next
    case kept
    then have "?r2 = [] @ skip_optional is_quote ?r2" by simp
    then show ?thesis by blast
  qed
  then obtain q where q: "?r2 = q @ skip_optional is_quote ?r2"
    "q = [] \<or> (\<exists>c. q = [c] \<and> is_quote c)"
    by blast
  have "r1 = takeWhile is_separator r1 @ ?r2"
    by simp
  also have "?r2 = q @ v @ rest"
    using q(1) by (simp add: v rest)
  finally have "s = kw @ takeWhile is_separator r1 @ q @ v @ rest"
    using kw(1) by simp
  moreover have "\<forall>c \<in> set (takeWhile is_separator r1). is_separator c"
    by (auto dest: set_takeWhileD)
  moreover have "\<forall>c \<in> set v. is_token_char c"
    by (auto simp: v dest: set_takeWhileD)
  moreover have "rest = [] \<or> \<not> is_token_char (hd rest)"
    unfolding rest using hd_dropWhile by blast
  ultimately show ?thesis
    unfolding spec_match_def using kw(2) seps q(2) len by blast
qed

lemma match_token_complete:
  assumes "spec_match s v rest"
  shows "match_token s = Some (v, rest)"
proof -
  from assms obtain kw seps q where s: "s = kw @ seps @ q @ v @ rest"
    and kw: "is_keyword kw" and seps: "seps \<noteq> []" "\<forall>c \<in> set seps. is_separator c"
    and q: "q = [] \<or> (\<exists>c. q = [c] \<and> is_quote c)"
    and v: "8 \<le> length v" "\<forall>c \<in> set v. is_token_char c"
    and rest: "rest = [] \<or> \<not> is_token_char (hd rest)"
    unfolding spec_match_def by blast
  from v(1) obtain a v' where va: "v = a # v'" by (cases v) auto
  with v(2) have a: "is_token_char a" by simp
  have k: "match_keyword s = Some (seps @ q @ v @ rest)"
    unfolding s by (rule match_keyword_complete [OF kw])
  have stop: "q @ v @ rest = [] \<or> \<not> is_separator (hd (q @ v @ rest))"
    using q a by (auto simp: va token_char_not_separator quote_not_separator)
  have t: "takeWhile is_separator (seps @ q @ v @ rest) = seps"
    using seps(2) stop by (cases "q @ v @ rest") auto
  have d: "dropWhile is_separator (seps @ q @ v @ rest) = q @ v @ rest"
    using seps(2) stop by (cases "q @ v @ rest") auto
  have sk: "skip_optional is_quote (q @ v @ rest) = v @ rest"
    using q a by (auto simp: va token_char_not_quote)
  have tv: "takeWhile is_token_char (v @ rest) = v"
    using v(2) rest by (cases rest) auto
  have dv: "dropWhile is_token_char (v @ rest) = rest"
    using v(2) rest by (cases rest) auto
  show ?thesis
    using seps(1) v(1) by (simp add: match_token_def k t d sk tv dv)
qed

lemma match_token_iff: "match_token s = Some (v, rest) \<longleftrightarrow> spec_match s v rest"
  using match_token_sound match_token_complete by blast

lemma findall_tokens_match:
  "match_token s = Some (u, rest) \<Longrightarrow> findall_tokens s = u # findall_tokens rest"
  by (subst findall_tokens.simps) simp

lemma findall_tokens_skip:
  "match_token (c # s) = None \<Longrightarrow> findall_tokens (c # s) = findall_tokens s"
  by (subst findall_tokens.simps) simp

lemma findall_tokens_Nil: "match_token [] = None \<Longrightarrow> findall_tokens [] = []"
  by (subst findall_tokens.simps) simp

lemma findall_tokens_reported: "v \<in> set (findall_tokens s) \<Longrightarrow> reported s v"
proof (induction s rule: findall_tokens.induct)
  case (1 s)
  show ?case
  proof (cases "match_token s")
    case None
    show ?thesis
    proof (cases s)
      case Nil
      with None "1.prems" show ?thesis by (simp add: findall_tokens_Nil)
    next
      case (Cons c cs)
      with None "1.prems" have "v \<in> set (findall_tokens cs)"
        by (simp add: findall_tokens_skip)
      then have "reported cs v"
        using "1.IH" None Cons by blast
      moreover have "\<forall>u rest. \<not> spec_match (c # cs) u rest"
        using None Cons match_token_complete by fastforce
      ultimately show ?thesis
        unfolding Cons by (rule reported.skip [rotated])
    qed
  next
    case (Some m)
    obtain u rest where m: "m = (u, rest)" by (cases m)
    with Some have match: "match_token s = Some (u, rest)" by simp
    then have sm: "spec_match s u rest" by (rule match_token_sound)
    from "1.prems" have "v = u \<or> v \<in> set (findall_tokens rest)"
      by (simp add: findall_tokens_match [OF match])
    then show ?thesis
    proof
      assume "v = u"
      with sm show ?thesis by (auto intro: reported.first)
    next
      assume "v \<in> set (findall_tokens rest)"
      then have "reported rest v"
        using "1.IH" match by blast
      with sm show ?thesis by (rule reported.after)
    qed
  qed
qed

lemma reported_findall_tokens: "reported s v \<Longrightarrow> v \<in> set (findall_tokens s)"
proof (induction rule: reported.induct)
  case (first s v rest)
  then show ?case
    by (simp add: findall_tokens_match [OF match_token_complete])
next
  case (after s u rest v)
  then show ?case
    by (simp add: findall_tokens_match [OF match_token_complete])
next
  case (skip c s v)
  have "match_token (c # s) = None"
  proof (cases "match_token (c # s)")
    case None
    then show ?thesis .
  next
    case (Some m)
    then have "spec_match (c # s) (fst m) (snd m)"
      by (intro match_token_sound) simp
    with skip.hyps(1) show ?thesis by blast
  qed
  with skip.IH show ?case
    by (simp add: findall_tokens_skip)
qed

lemma reported_candidate: "reported s v \<Longrightarrow> spec_candidate s v"
proof (induction rule: reported.induct)
  case (first s v rest)
  then have "s = [] @ s \<and> spec_match s v rest" by simp
  then show ?case unfolding spec_candidate_def by blast
next
  case (after s u rest v)
  from after.hyps(1) obtain front where front: "s = front @ rest"
    unfolding spec_match_def by (metis append.assoc)
  from after.IH obtain pre s' rest' where "rest = pre @ s'" "spec_match s' v rest'"
    unfolding spec_candidate_def by blast
  then have "s = (front @ pre) @ s' \<and> spec_match s' v rest'"
    using front by simp
  then show ?case unfolding spec_candidate_def by blast
next
  case (skip c s v)
  from skip.IH obtain pre s' rest' where "s = pre @ s'" "spec_match s' v rest'"
    unfolding spec_candidate_def by blast
  then have "c # s = (c # pre) @ s' \<and> spec_match s' v rest'"
    by simp
  then show ?case unfolding spec_candidate_def by blast
qed

text \<open>
  Claim C9, as amended. For every text, the credential candidates returned are exactly the
  captured values of the matches that a scan from left to right reports: a match that
  starts at the current position is reported and the scan goes on behind it, otherwise the
  scan moves one character on. Each candidate is the captured value of a matching
  substring of the text (keyword in any case, one or more separators, an optional quote,
  a maximal run of at least 8 word characters or hyphens), and the list returned has no
  duplicates.
\<close>

theorem tokens_are_the_reported_matches:
  assumes "set_lister lst"
  shows "(v \<in> set (tokens (extract_info lst text)) \<longleftrightarrow> reported text v) \<and>
         (v \<in> set (tokens (extract_info lst text)) \<longrightarrow> spec_candidate text v) \<and>
         distinct (tokens (extract_info lst text))"
proof -
  have "set (tokens (extract_info lst text)) = set (findall_tokens text)"
    and d: "distinct (tokens (extract_info lst text))"
    using assms by (simp_all add: set_lister_def extract_info_def)
  then show ?thesis
    using findall_tokens_reported reported_findall_tokens reported_candidate by blast
qed

lemma remdups_lister: "set_lister remdups"
  by (simp add: set_lister_def)

lemma keyword_token: "is_keyword ''token''"
  by code_simp

lemma spec_match_example: "spec_match ''token=abcdefgh'' ''abcdefgh'' []"
proof -
  have "''token=abcdefgh'' = ''token'' @ ''='' @ [] @ ''abcdefgh'' @ []"
    by simp
  moreover have "\<forall>c \<in> set ''=''. is_separator c"
    by code_simp
  moreover have "\<forall>c \<in> set ''abcdefgh''. is_token_char c"
    by code_simp
  ultimately show ?thesis
    unfolding spec_match_def using keyword_token
    by (intro exI [of _ "''token''"] exI [of _ "''=''"] exI [of _ "[]"]) simp
qed

theorem tokens_are_the_reported_matches_witness:
  "set_lister remdups \<and>
   (''abcdefgh'' \<in> set (tokens (extract_info remdups ''token=abcdefgh'')) \<longleftrightarrow>
      reported ''token=abcdefgh'' ''abcdefgh'') \<and>
   ''abcdefgh'' \<in> set (tokens (extract_info remdups ''token=abcdefgh'')) \<and>
   spec_candidate ''token=abcdefgh'' ''abcdefgh''"
proof -
  have m: "''abcdefgh'' \<in> set (tokens (extract_info remdups ''token=abcdefgh''))"
    by code_simp
  show ?thesis
    using tokens_are_the_reported_matches [OF remdups_lister, of "''abcdefgh''" "''token=abcdefgh''"]
      remdups_lister m
    by blast
qed

text \<open>
  The claim C9 as it was stated fails on \<^verbatim>\<open>token secret-token=abcdefgh\<close>: the substring
  \<^verbatim>\<open>token=abcdefgh\<close> matches, with the captured value \<^verbatim>\<open>abcdefgh\<close>, but it starts inside
  the match \<^verbatim>\<open>token secret-token\<close> reported before, and is not reported.
\<close>

theorem overlapped_match_is_not_reported:
  "spec_candidate ''token secret-token=abcdefgh'' ''abcdefgh'' \<and>
   tokens (extract_info remdups ''token secret-token=abcdefgh'') = [''secret-token'']"
proof
  have "''token secret-token=abcdefgh'' = ''token secret-'' @ ''token=abcdefgh''"
    by simp
  with spec_match_example show "spec_candidate ''token secret-token=abcdefgh'' ''abcdefgh''"
    unfolding spec_candidate_def by blast
  show "tokens (extract_info remdups ''token secret-token=abcdefgh'') = [''secret-token'']"
    by code_simp
qed

end
